theory Spec2Isabelle
  imports Main
begin

section \<open>Python primitives used by ingest\_pdf.py\<close>

text \<open>
  Strings are \<open>char list\<close>; a character is a byte. \<open>isspace\<close> is Python's
  \<open>str.isspace\<close> on the ASCII range (TAB, LF, VT, FF, CR, FS, GS, RS, US and space).
  Every result below about splitting and joining uses one fact about it only: the
  separator \<open>CHR '' ''\<close> is white space.
\<close>

definition isspace :: "char \<Rightarrow> bool" where
  "isspace c = (c \<in> set [CHR 0x09, CHR 0x0A, CHR 0x0B, CHR 0x0C, CHR 0x0D,
                          CHR 0x1C, CHR 0x1D, CHR 0x1E, CHR 0x1F, CHR '' ''])"

text \<open>
  \<open>s.split()\<close> with no argument: the maximal runs of non-space characters, in order;
  no empty word is produced. \<open>split_go cur s\<close> scans \<open>s\<close> with the word being read
  in \<open>cur\<close>.
\<close>

fun split_go :: "string \<Rightarrow> string \<Rightarrow> string list" where
  "split_go cur [] = (if cur = [] then [] else [cur])"
| "split_go cur (c # s) =
     (if isspace c then (if cur = [] then split_go [] s else cur # split_go [] s)
      else split_go (cur @ [c]) s)"

definition str_split :: "string \<Rightarrow> string list" where
  "str_split s = split_go [] s"

text \<open>\<open>sep.join(ws)\<close>.\<close>

fun str_join :: "string \<Rightarrow> string list \<Rightarrow> string" where
  "str_join sep [] = []"
| "str_join sep [w] = w"
| "str_join sep (w # v # ws) = w @ sep @ str_join sep (v # ws)"

text \<open>
  \<open>xs[i:j]\<close> with Python's rules: a negative index counts from the end, and both
  indices are clamped to \<open>0 .. len(xs)\<close>; the slice is empty when the clamped upper
  index is not above the lower one (\<open>nat\<close> of a negative number is \<open>0\<close>).
\<close>

definition py_slice :: "'a list \<Rightarrow> int \<Rightarrow> int \<Rightarrow> 'a list" where
  "py_slice xs i j =
     (let n = int (length xs);
          lo = (if i < 0 then max (i + n) 0 else min i n);
          hi = (if j < 0 then max (j + n) 0 else min j n)
      in take (nat (hi - lo)) (drop (nat lo) xs))"

text \<open>\<open>str(i)\<close> for an integer: decimal digits, with a leading minus sign.\<close>

definition digit_char :: "nat \<Rightarrow> char" where
  "digit_char d = char_of (48 + d)"

function str_nat :: "nat \<Rightarrow> string" where
  "str_nat n = (if n < 10 then [digit_char n] else str_nat (n div 10) @ [digit_char (n mod 10)])"
  by pat_completeness auto
termination
  by (relation "measure (\<lambda>n. n)") auto

definition str_int :: "int \<Rightarrow> string" where
  "str_int i = (if i < 0 then CHR ''-'' # str_nat (nat (- i)) else str_nat (nat i))"

section \<open>Step 2: the sliding-window chunker\<close>

text \<open>
  The dictionaries of the source as records. A page is \<open>{page, text}\<close>; a chunk is
  \<open>{chunk_id, text, page, chunk_index, word_start, word_end}\<close>. The text fields are
  named after the source's local variables, \<open>text\<close> being a keyword here.
\<close>

record page_info =
  page_num :: int
  page_text :: string

record chunk =
  chunk_id :: string
  chunk_text_str :: string
  page :: int
  chunk_index :: int
  word_start :: int
  word_end :: int

text \<open>
  The \<open>while start < len(words)\<close> loop of \<open>chunk_text\<close> for one page. Its state is
  the cursor \<open>start\<close>, the document-wide counter \<open>chunk_idx\<close> and the list
  \<open>chunks\<close> that is appended to. \<open>chunk_size\<close> and \<open>overlap\<close> are Python integers
  of either sign, and nothing forces the cursor to advance, so the loop is a partial
  function: \<open>None\<close> is a run that never leaves the loop.
\<close>

partial_function (option) window_loop ::
  "string list \<Rightarrow> int \<Rightarrow> int \<Rightarrow> int \<Rightarrow> int \<Rightarrow> int \<Rightarrow> chunk list \<Rightarrow> (chunk list \<times> int) option"
where
  "window_loop words pnum chunk_size overlap start chunk_idx chunks =
     (if start < int (length words) then
        (let end = min (start + chunk_size) (int (length words));
             chunks' = chunks @
               [\<lparr>chunk_id = ''p'' @ str_int pnum @ ''_c'' @ str_int chunk_idx,
                 chunk_text_str = str_join '' '' (py_slice words start end),
                 page = pnum,
                 chunk_index = chunk_idx,
                 word_start = start,
                 word_end = end\<rparr>];
             chunk_idx' = chunk_idx + 1
         in if end = int (length words) then Some (chunks', chunk_idx')
            else window_loop words pnum chunk_size overlap
                   (start + (chunk_size - overlap)) chunk_idx' chunks')
      else Some (chunks, chunk_idx))"

declare window_loop.simps [code]

text \<open>
  The \<open>for page_info in pages\<close> loop: each page is split into words and windowed
  from cursor \<open>0\<close>; the counter and the chunk list are carried from page to page.
\<close>

fun chunk_pages ::
  "page_info list \<Rightarrow> int \<Rightarrow> int \<Rightarrow> int \<Rightarrow> chunk list \<Rightarrow> (chunk list \<times> int) option"
where
  "chunk_pages [] chunk_size overlap chunk_idx chunks = Some (chunks, chunk_idx)"
| "chunk_pages (p # ps) chunk_size overlap chunk_idx chunks =
     (case window_loop (str_split (page_text p)) (page_num p) chunk_size overlap 0 chunk_idx chunks of
        None \<Rightarrow> None
      | Some (chunks', chunk_idx') \<Rightarrow> chunk_pages ps chunk_size overlap chunk_idx' chunks')"

definition chunk_text :: "page_info list \<Rightarrow> int \<Rightarrow> int \<Rightarrow> chunk list option" where
  "chunk_text pages chunk_size overlap = map_option fst (chunk_pages pages chunk_size overlap 0 [])"

section \<open>Step 1: text extraction\<close>

text \<open>
  Python exceptions are values: the class name and the message. \<open>sys.exit(msg)\<close>
  raises \<open>SystemExit(msg)\<close>, which prints \<open>msg\<close> to standard error and ends the
  process with status 1.
\<close>

datatype py_exception = PyExc (exc_class: string) (exc_msg: string)

text \<open>\<open>re.sub(r"\s+", " ", text)\<close>: every maximal run of white space becomes one space.\<close>

function re_sub_ws :: "string \<Rightarrow> string" where
  "re_sub_ws [] = []"
| "re_sub_ws (c # s) =
     (if isspace c then CHR '' '' # re_sub_ws (dropWhile isspace s) else c # re_sub_ws s)"
  by pat_completeness auto
termination
  by (relation "measure length") (auto simp: less_Suc_eq_le length_dropWhile_le)

text \<open>\<open>text.strip()\<close>.\<close>

definition strip :: "string \<Rightarrow> string" where
  "strip s = rev (dropWhile isspace (rev (dropWhile isspace s)))"

text \<open>
  pypdf is not part of the repository, so the reader is a parameter: \<open>PdfReader(path)\<close>
  either raises or gives the pages, and \<open>page.extract_text()\<close> either raises or gives a
  string or \<open>None\<close>. \<open>extract_loop\<close> is the \<open>for i, page in enumerate(reader.pages)\<close>
  loop; an exception leaves it at once, and the pages collected so far are lost with it.
\<close>

type_synonym pdf_page = "py_exception + string option"
type_synonym pdf_reader = "string \<Rightarrow> py_exception + pdf_page list"

fun extract_loop :: "nat \<Rightarrow> pdf_page list \<Rightarrow> page_info list \<Rightarrow> py_exception + page_info list" where
  "extract_loop i [] pages = Inr pages"
| "extract_loop i (pg # rest) pages =
     (case pg of
        Inl e \<Rightarrow> Inl e
      | Inr t \<Rightarrow>
          (let raw = (case t of None \<Rightarrow> [] | Some s \<Rightarrow> s);
               txt = strip (re_sub_ws raw)
           in if txt \<noteq> [] then
                extract_loop (i + 1) rest (pages @ [\<lparr>page_num = int i + 1, page_text = txt\<rparr>])
              else extract_loop (i + 1) rest pages))"

definition extract_text :: "pdf_reader \<Rightarrow> string \<Rightarrow> py_exception + page_info list" where
  "extract_text reader pdf_path =
     (case reader pdf_path of Inl e \<Rightarrow> Inl e | Inr pgs \<Rightarrow> extract_loop 0 pgs [])"

section \<open>Step 3: embedding and storing\<close>

text \<open>
  A stored record is \<open>(id, embedding, document, metadata)\<close>; a collection is the list
  of its records in order of creation, and the database maps a persistence directory
  and a collection name to a collection (the empty one until it is first written, which
  is what \<open>get_or_create_collection\<close> returns).
\<close>

record metadata =
  md_page :: int
  md_chunk_index :: int
  md_word_start :: int
  md_word_end :: int
  md_source :: string

type_synonym 'v collection = "(string \<times> 'v \<times> string \<times> metadata) list"
type_synonym 'v vector_db = "string \<times> string \<Rightarrow> 'v collection"

text \<open>
  Modelled from the spec: the store's upsert, chromadb not being part of the
  repository. "If a record with the same id already exists in the collection, its
  vector/text/metadata are replaced; otherwise a new record is created."
\<close>

fun upsert_one :: "string \<Rightarrow> 'r \<Rightarrow> (string \<times> 'r) list \<Rightarrow> (string \<times> 'r) list" where
  "upsert_one k r [] = [(k, r)]"
| "upsert_one k r ((k', r') # coll) =
     (if k' = k then (k, r) # coll else (k', r') # upsert_one k r coll)"

text \<open>
  Modelled from the spec: \<open>collection.upsert(ids, documents, metadatas)\<close>. The
  embedding collaborator "returns one vector per string, preserving input order", so
  it is a function \<open>ef\<close> of the text; the records of the batch are upserted in order.
\<close>

definition collection_upsert ::
  "(string \<Rightarrow> 'v) \<Rightarrow> string list \<Rightarrow> string list \<Rightarrow> metadata list \<Rightarrow> 'v collection \<Rightarrow> 'v collection"
where
  "collection_upsert ef ids documents metadatas coll =
     fold (\<lambda>(k, d, m). upsert_one k (ef d, d, m)) (zip ids (zip documents metadatas)) coll"

definition batch :: nat where
  "batch = 128"

text \<open>
  The \<open>for i in range(0, len(chunks), batch)\<close> loop, \<open>n\<close> being \<open>len(chunks)\<close>.
\<close>

function upsert_loop ::
  "(string \<Rightarrow> 'v) \<Rightarrow> nat \<Rightarrow> nat \<Rightarrow> string list \<Rightarrow> string list \<Rightarrow> metadata list \<Rightarrow>
     'v collection \<Rightarrow> 'v collection"
where
  "upsert_loop ef i n ids documents metadatas coll =
     (if i < n then
        upsert_loop ef (i + batch) n ids documents metadatas
          (collection_upsert ef
             (py_slice ids (int i) (int (i + batch)))
             (py_slice documents (int i) (int (i + batch)))
             (py_slice metadatas (int i) (int (i + batch)))
             coll)
      else coll)"
  by pat_completeness auto
termination
  by (relation "measure (\<lambda>(ef, i, n, ids, documents, metadatas, coll). n - i)")
     (auto simp: batch_def)

record ingest_stats =
  st_source :: string
  st_collection :: string
  st_db_dir :: string
  st_total_chunks :: nat
  st_model :: string

text \<open>
  \<open>embed_and_store\<close>: the embedding function \<open>ef\<close> is made from the model name
  (by \<open>emb\<close>, the sentence-transformer library, a parameter), the
  collection is opened or created, and the chunks are upserted batch by batch. The
  progress lines printed to standard output are left out, and the model and the store
  are taken to work: an exception of the embedding library or of chromadb has no
  counterpart here.
\<close>

definition embed_and_store ::
  "(string \<Rightarrow> string \<Rightarrow> 'v) \<Rightarrow> chunk list \<Rightarrow> string \<Rightarrow> string \<Rightarrow> string \<Rightarrow> string \<Rightarrow>
     'v vector_db \<Rightarrow> 'v vector_db \<times> ingest_stats"
where
  "embed_and_store emb chunks db_dir collection_name model_name source_name db =
     (let ef = emb model_name;
          coll = db (db_dir, collection_name);
          ids = map chunk_id chunks;
          documents = map chunk_text_str chunks;
          metadatas = map (\<lambda>c. \<lparr>md_page = page c, md_chunk_index = chunk_index c,
                                 md_word_start = word_start c, md_word_end = word_end c,
                                 md_source = source_name\<rparr>) chunks;
          coll' = upsert_loop ef 0 (length chunks) ids documents metadatas coll;
          stats = \<lparr>st_source = source_name, st_collection = collection_name,
                    st_db_dir = db_dir, st_total_chunks = length chunks,
                    st_model = model_name\<rparr>
      in (db((db_dir, collection_name) := coll'), stats))"

text \<open>
  Modelled from the spec: the writer as "one giant batch", the implementation that
  the batched one must be indistinguishable from. It is \<open>embed_and_store\<close> with
  the loop replaced by a single \<open>collection.upsert\<close> of all the records.
\<close>

definition embed_and_store_one_batch ::
  "(string \<Rightarrow> string \<Rightarrow> 'v) \<Rightarrow> chunk list \<Rightarrow> string \<Rightarrow> string \<Rightarrow> string \<Rightarrow> string \<Rightarrow>
     'v vector_db \<Rightarrow> 'v vector_db \<times> ingest_stats"
where
  "embed_and_store_one_batch emb chunks db_dir collection_name model_name source_name db =
     (let ef = emb model_name;
          coll = db (db_dir, collection_name);
          ids = map chunk_id chunks;
          documents = map chunk_text_str chunks;
          metadatas = map (\<lambda>c. \<lparr>md_page = page c, md_chunk_index = chunk_index c,
                                 md_word_start = word_start c, md_word_end = word_end c,
                                 md_source = source_name\<rparr>) chunks;
          coll' = collection_upsert ef ids documents metadatas coll;
          stats = \<lparr>st_source = source_name, st_collection = collection_name,
                    st_db_dir = db_dir, st_total_chunks = length chunks,
                    st_model = model_name\<rparr>
      in (db((db_dir, collection_name) := coll'), stats))"

section \<open>The command-line entry point\<close>

text \<open>
  The parsed arguments, and the world around the script: whether a path exists, what
  the PDF reader gives for it, pathlib's \<open>str(path)\<close> and \<open>path.name\<close>, and the
  embedding model.
\<close>

record args =
  arg_pdf :: string
  arg_db_dir :: string
  arg_collection :: string
  arg_chunk_size :: int
  arg_overlap :: int
  arg_model :: string

record 'v env =
  path_exists :: "string \<Rightarrow> bool"
  path_str :: "string \<Rightarrow> string"
  path_name :: "string \<Rightarrow> string"
  pdf_reader :: pdf_reader
  embedding_function :: "string \<Rightarrow> string \<Rightarrow> 'v"

text \<open>
  \<open>main\<close> after argument parsing. The result is the exception that ended the run or
  the statistics of \<open>embed_and_store\<close>, with the database as the run left it;
  \<open>None\<close> is a run that never ends. The only check before extraction is that the
  path exists.
\<close>

definition main ::
  "'v env \<Rightarrow> args \<Rightarrow> 'v vector_db \<Rightarrow> ((py_exception + ingest_stats) \<times> 'v vector_db) option"
where
  "main env a db =
     (if \<not> path_exists env (arg_pdf a) then
        Some (Inl (PyExc ''SystemExit''
                (''[ingest] '' @ [CHR 0xE2, CHR 0x9D, CHR 0x8C] @ '' File not found: ''
                   @ path_str env (arg_pdf a))), db)
      else
        (case extract_text (pdf_reader env) (arg_pdf a) of
           Inl e \<Rightarrow> Some (Inl e, db)
         | Inr pages \<Rightarrow>
             (case chunk_text pages (arg_chunk_size a) (arg_overlap a) of
                None \<Rightarrow> None
              | Some chunks \<Rightarrow>
                  (let (db', stats) =
                         embed_and_store (embedding_function env) chunks (arg_db_dir a)
                           (arg_collection a) (arg_model a) (path_name env (arg_pdf a)) db
                   in Some (Inr stats, db')))))"

section \<open>Vocabulary of the proofs\<close>

text \<open>
  \<open>indexed_from i cs\<close>: the chunks of \<open>cs\<close> carry the indices \<open>i, i + 1, ...\<close>
  in order.
\<close>

fun indexed_from :: "int \<Rightarrow> chunk list \<Rightarrow> bool" where
  "indexed_from i [] = True"
| "indexed_from i (c # cs) = (chunk_index c = i \<and> indexed_from (i + 1) cs)"

text \<open>
  \<open>window_of words pnum chunk_size c\<close>: \<open>c\<close> is a chunk as one iteration of the
  loop builds it on a page of number \<open>pnum\<close> and words \<open>words\<close>.
\<close>

definition window_of :: "string list \<Rightarrow> int \<Rightarrow> int \<Rightarrow> chunk \<Rightarrow> bool" where
  "window_of words pnum chunk_size c =
     (page c = pnum \<and>
      chunk_id c = ''p'' @ str_int (page c) @ ''_c'' @ str_int (chunk_index c) \<and>
      word_start c < int (length words) \<and>
      word_end c = min (word_start c + chunk_size) (int (length words)) \<and>
      chunk_text_str c = str_join '' '' (py_slice words (word_start c) (word_end c)))"


text \<open>
  \<open>windows n chunk_size stride s em\<close>: \<open>em\<close> is the run of windows over \<open>n\<close>
  words that starts at cursor \<open>s\<close> and ends with the window that reaches \<open>n\<close>;
  every window before the last is full and is followed by one \<open>stride\<close> further.
\<close>

fun windows :: "int \<Rightarrow> int \<Rightarrow> int \<Rightarrow> int \<Rightarrow> chunk list \<Rightarrow> bool" where
  "windows n chunk_size stride s [] = False"
| "windows n chunk_size stride s [c] =
     (word_start c = s \<and> word_end c = n \<and> s < n \<and> n \<le> s + chunk_size)"
| "windows n chunk_size stride s (c # d # em) =
     (word_start c = s \<and> word_end c = s + chunk_size \<and> s < n \<and> s + chunk_size < n \<and>
      windows n chunk_size stride (s + stride) (d # em))"

text \<open>
  \<open>upsert_all kvs coll\<close>: the records \<open>kvs\<close> upserted one after the other;
  \<open>batch_records\<close>: the records that one call of \<open>collection.upsert\<close> writes.
\<close>

definition upsert_all :: "(string \<times> 'r) list \<Rightarrow> (string \<times> 'r) list \<Rightarrow> (string \<times> 'r) list" where
  "upsert_all kvs coll = fold (\<lambda>(k, r). upsert_one k r) kvs coll"

definition batch_records ::
  "(string \<Rightarrow> 'v) \<Rightarrow> string list \<Rightarrow> string list \<Rightarrow> metadata list \<Rightarrow>
     (string \<times> 'v \<times> string \<times> metadata) list" where
  "batch_records ef ids documents metadatas =
     map (\<lambda>(k, d, m). (k, ef d, d, m)) (zip ids (zip documents metadatas))"

section \<open>Sample inputs\<close>

text \<open>
  A world for the concrete runs below: \<open>doc.pdf\<close> has three pages, the second
  without text; \<open>broken.pdf\<close> exists and the reader raises on it; no other
  path exists. The embedding of a text is its length, and the database starts empty.
\<close>

definition sample_reader :: pdf_reader where
  "sample_reader p =
     (if p = ''broken.pdf'' then Inl (PyExc ''PdfReadError'' ''EOF marker not found'')
      else Inr [Inr (Some ''a b  c d e''), Inr None, Inr (Some ''x y'')])"

definition sample_embedding :: "string \<Rightarrow> string \<Rightarrow> nat" where
  "sample_embedding model_name txt_in = length txt_in"

definition sample_exists :: "string \<Rightarrow> bool" where
  "sample_exists p = (p = ''doc.pdf'' \<or> p = ''broken.pdf'')"

definition sample_env :: "nat env" where
  "sample_env = \<lparr>path_exists = sample_exists, path_str = id, path_name = id,
                  pdf_reader = sample_reader, embedding_function = sample_embedding\<rparr>"

definition sample_args :: "string \<Rightarrow> int \<Rightarrow> int \<Rightarrow> args" where
  "sample_args pdf chunk_size overlap =
     \<lparr>arg_pdf = pdf, arg_db_dir = ''./data/vector_db'', arg_collection = ''docs'',
      arg_chunk_size = chunk_size, arg_overlap = overlap, arg_model = ''all-MiniLM-L6-v2''\<rparr>"

definition empty_db :: "nat vector_db" where
  "empty_db key = []"

section \<open>Splitting, joining and slicing\<close>








lemma py_slice_nat:
  "py_slice xs (int i) (int (i + k)) = take k (drop i xs)"
proof (cases "i \<le> length xs")
  case True
  then show ?thesis
    by (cases "i + k \<le> length xs") (simp_all add: py_slice_def Let_def min_def)
next
  case False
  then show ?thesis by (simp add: py_slice_def Let_def min_def)
qed

section \<open>What the windowing loop emits\<close>

lemma indexed_from_append:
  "indexed_from i (xs @ ys) = (indexed_from i xs \<and> indexed_from (i + int (length xs)) ys)"
  by (induction xs arbitrary: i) (auto simp: algebra_simps)

lemma indexed_from_map:
  "indexed_from i cs \<Longrightarrow> map chunk_index cs = map (\<lambda>k. i + int k) [0..<length cs]"
proof (induction cs arbitrary: i)
  case Nil
  show ?case by simp
next
  case (Cons c cs)
  then have "map chunk_index cs = map (\<lambda>k. (i + 1) + int k) [0..<length cs]" by simp
  also have "\<dots> = map ((\<lambda>k. i + int k) \<circ> Suc) [0..<length cs]" by (simp add: algebra_simps)
  finally show ?case using Cons.prems
    by (simp add: upt_conv_Cons map_Suc_upt [symmetric] del: upt_Suc)
qed

lemma window_loop_emits:
  assumes "window_loop words pnum chunk_size overlap start chunk_idx chunks = Some r"
  shows "\<not> (chunk_size - overlap \<le> 0 \<and> start < int (length words) \<and>
            start + chunk_size < int (length words)) \<and>
         (\<exists>em. fst r = chunks @ em \<and> snd r = chunk_idx + int (length em) \<and>
              indexed_from chunk_idx em \<and>
              (\<forall>c\<in>set em. window_of words pnum chunk_size c) \<and>
              (0 \<le> start \<longrightarrow> (\<forall>c\<in>set em. 0 \<le> word_start c)))"
  using assms
proof (induction rule: window_loop.raw_induct [rotated 1, consumes 1])
  case (1 loop words pnum chunk_size overlap start chunk_idx chunks r)
  define c where "c = \<lparr>chunk_id = ''p'' @ str_int pnum @ ''_c'' @ str_int chunk_idx,
       chunk_text_str = str_join '' '' (py_slice words start
          (min (start + chunk_size) (int (length words)))),
       page = pnum, chunk_index = chunk_idx, word_start = start,
       word_end = min (start + chunk_size) (int (length words))\<rparr>"
  show ?case
  proof (cases "start < int (length words)")
    case False
    with "1.hyps" have "r = (chunks, chunk_idx)" by auto
    with False show ?thesis by simp
  next
    case inside: True
    then have c_ok: "window_of words pnum chunk_size c"
      by (simp add: window_of_def c_def)
    have c_idx: "chunk_index c = chunk_idx" and c_start: "word_start c = start"
      by (simp_all add: c_def)
    show ?thesis
    proof (cases "min (start + chunk_size) (int (length words)) = int (length words)")
      case True
      with inside "1.hyps" have "r = (chunks @ [c], chunk_idx + 1)"
        by (auto simp: Let_def c_def)
      moreover from True have "\<not> start + chunk_size < int (length words)" by linarith
      ultimately show ?thesis using c_ok c_idx c_start by simp
    next
      case False
      then have short: "start + chunk_size < int (length words)" by linarith
      then have "min (start + chunk_size) (int (length words)) = start + chunk_size" by simp
      with short inside "1.hyps" have
        "loop words pnum chunk_size overlap (start + (chunk_size - overlap)) (chunk_idx + 1)
           (chunks @ [c]) = Some r"
        by (simp add: Let_def c_def)
      from "1.IH" [OF this] obtain em where
        moving: "\<not> (chunk_size - overlap \<le> 0 \<and>
            start + (chunk_size - overlap) < int (length words) \<and>
            start + (chunk_size - overlap) + chunk_size < int (length words))" and
        em: "fst r = (chunks @ [c]) @ em" "snd r = chunk_idx + 1 + int (length em)"
            "indexed_from (chunk_idx + 1) em" "\<forall>c\<in>set em. window_of words pnum chunk_size c"
            "0 \<le> start + (chunk_size - overlap) \<longrightarrow> (\<forall>c\<in>set em. 0 \<le> word_start c)"
        by blast
      from moving inside short have step: "0 < chunk_size - overlap" by linarith
      have "fst r = chunks @ (c # em)" using em(1) by simp
      moreover have "snd r = chunk_idx + int (length (c # em))" using em(2) by simp
      moreover have "indexed_from chunk_idx (c # em)" using em(3) c_idx by simp
      moreover have "\<forall>d\<in>set (c # em). window_of words pnum chunk_size d"
        using em(4) c_ok by simp
      moreover have "0 \<le> start \<longrightarrow> (\<forall>d\<in>set (c # em). 0 \<le> word_start d)"
        using em(5) step c_start by simp
      ultimately have "\<exists>em. fst r = chunks @ em \<and> snd r = chunk_idx + int (length em) \<and>
              indexed_from chunk_idx em \<and>
              (\<forall>c\<in>set em. window_of words pnum chunk_size c) \<and>
              (0 \<le> start \<longrightarrow> (\<forall>c\<in>set em. 0 \<le> word_start c))"
        by blast
      moreover from step have "\<not> (chunk_size - overlap \<le> 0 \<and> start < int (length words) \<and>
            start + chunk_size < int (length words))"
        by linarith
      ultimately show ?thesis by (rule conjI [rotated])
    qed
  qed
qed

lemma window_loop_windows:
  assumes "0 \<le> overlap" "overlap < chunk_size"
  shows "start < int (length words) \<Longrightarrow>
         \<exists>em. window_loop words pnum chunk_size overlap start chunk_idx chunks
                 = Some (chunks @ em, chunk_idx + int (length em)) \<and>
              windows (int (length words)) chunk_size (chunk_size - overlap) start em"
proof (induction "nat (int (length words) - start)" arbitrary: start chunk_idx chunks
       rule: less_induct)
  case less
  define c where "c = \<lparr>chunk_id = ''p'' @ str_int pnum @ ''_c'' @ str_int chunk_idx,
       chunk_text_str = str_join '' '' (py_slice words start
          (min (start + chunk_size) (int (length words)))),
       page = pnum, chunk_index = chunk_idx, word_start = start,
       word_end = min (start + chunk_size) (int (length words))\<rparr>"
  note inside = \<open>start < int (length words)\<close>
  show ?case
  proof (cases "min (start + chunk_size) (int (length words)) = int (length words)")
    case True
    with inside have "window_loop words pnum chunk_size overlap start chunk_idx chunks
        = Some (chunks @ [c], chunk_idx + int (length [c]))"
      by (subst window_loop.simps) (simp add: Let_def c_def)
    moreover have "windows (int (length words)) chunk_size (chunk_size - overlap) start [c]"
      using True inside by (simp add: c_def)
    ultimately show ?thesis by blast
  next
    case False
    then have short: "start + chunk_size < int (length words)" by linarith
    then have m: "min (start + chunk_size) (int (length words)) = start + chunk_size" by simp
    have next_inside: "start + (chunk_size - overlap) < int (length words)"
      using short assms by linarith
    have "nat (int (length words) - (start + (chunk_size - overlap)))
            < nat (int (length words) - start)"
      using assms inside by linarith
    from less.hyps [OF this next_inside, of "chunk_idx + 1" "chunks @ [c]"] obtain em where
      run: "window_loop words pnum chunk_size overlap (start + (chunk_size - overlap))
              (chunk_idx + 1) (chunks @ [c])
            = Some ((chunks @ [c]) @ em, chunk_idx + 1 + int (length em))" and
      win: "windows (int (length words)) chunk_size (chunk_size - overlap)
              (start + (chunk_size - overlap)) em"
      by blast
    from win obtain d em' where em: "em = d # em'" by (cases em) auto
    have "window_loop words pnum chunk_size overlap start chunk_idx chunks
            = Some (chunks @ (c # em), chunk_idx + int (length (c # em)))"
      using inside short run by (subst window_loop.simps) (simp add: Let_def c_def m)
    moreover have "windows (int (length words)) chunk_size (chunk_size - overlap) start (c # em)"
      using win short inside by (simp add: em c_def m)
    ultimately show ?thesis by blast
  qed
qed

lemma windows_nth:
  "windows n chunk_size stride s em \<Longrightarrow> i < length em \<Longrightarrow>
     word_start (em ! i) = s + int i * stride \<and>
     word_end (em ! i) = min (s + int i * stride + chunk_size) n \<and>
     s + int i * stride < n \<and>
     (Suc i < length em \<longrightarrow> s + int i * stride + chunk_size < n)"
proof (induction n chunk_size stride s em arbitrary: i rule: windows.induct)
  case (1 n chunk_size stride s)
  then show ?case by simp
next
  case (2 n chunk_size stride s c)
  then show ?case by simp
next
  case (3 n chunk_size stride s c d em)
  show ?case
  proof (cases i)
    case 0
    with "3.prems" show ?thesis by simp
  next
    case (Suc j)
    with "3.prems" have "j < length (d # em)"
      and "windows n chunk_size stride (s + stride) (d # em)" by simp_all
    from "3.IH" [OF this(2) this(1)] Suc show ?thesis
      by (simp add: algebra_simps)
  qed
qed

lemma windows_nonempty: "windows n chunk_size stride s em \<Longrightarrow> em \<noteq> []"
  by (cases em) auto

lemma windows_last:
  "windows n chunk_size stride s em \<Longrightarrow> word_end (last em) = n"
  by (induction n chunk_size stride s em rule: windows.induct) auto

lemma windows_cover:
  "windows n chunk_size stride s em \<Longrightarrow> stride \<le> chunk_size \<Longrightarrow> s \<le> k \<Longrightarrow> k < n \<Longrightarrow>
     \<exists>c\<in>set em. word_start c \<le> k \<and> k < word_end c"
proof (induction n chunk_size stride s em rule: windows.induct)
  case (1 n chunk_size stride s)
  then show ?case by simp
next
  case (2 n chunk_size stride s c)
  then show ?case by simp
next
  case (3 n chunk_size stride s c d em)
  show ?case
  proof (cases "k < s + chunk_size")
    case True
    with "3.prems" show ?thesis by simp
  next
    case False
    with "3.prems" have "s + stride \<le> k" by linarith
    with "3.IH" "3.prems" show ?thesis by simp
  qed
qed

lemma chunk_pages_emits:
  "chunk_pages pages chunk_size overlap chunk_idx chunks = Some r \<Longrightarrow>
     \<exists>em. fst r = chunks @ em \<and> snd r = chunk_idx + int (length em) \<and>
          indexed_from chunk_idx em \<and>
          (\<forall>c\<in>set em. \<exists>p\<in>set pages.
             window_of (str_split (page_text p)) (page_num p) chunk_size c \<and> 0 \<le> word_start c)"
proof (induction pages arbitrary: chunk_idx chunks)
  case Nil
  then show ?case by auto
next
  case (Cons p ps)
  from Cons.prems obtain r1 where
    r1: "window_loop (str_split (page_text p)) (page_num p) chunk_size overlap 0 chunk_idx chunks
           = Some r1" and
    r2: "chunk_pages ps chunk_size overlap (snd r1) (fst r1) = Some r"
    by (auto split: option.splits)
  from window_loop_emits [OF r1] obtain em1 where
    em1: "fst r1 = chunks @ em1" "snd r1 = chunk_idx + int (length em1)"
         "indexed_from chunk_idx em1"
         "\<forall>c\<in>set em1. window_of (str_split (page_text p)) (page_num p) chunk_size c"
         "\<forall>c\<in>set em1. 0 \<le> word_start c"
    by auto
  from Cons.IH [OF r2] obtain em2 where
    em2: "fst r = fst r1 @ em2" "snd r = snd r1 + int (length em2)"
         "indexed_from (snd r1) em2"
         "\<forall>c\<in>set em2. \<exists>q\<in>set ps.
             window_of (str_split (page_text q)) (page_num q) chunk_size c \<and> 0 \<le> word_start c"
    by blast
  have "fst r = chunks @ (em1 @ em2)" using em1(1) em2(1) by simp
  moreover have "snd r = chunk_idx + int (length (em1 @ em2))" using em1(2) em2(2) by simp
  moreover have "indexed_from chunk_idx (em1 @ em2)"
    using em1(2,3) em2(3) by (simp add: indexed_from_append)
  moreover have "\<forall>c\<in>set (em1 @ em2). \<exists>q\<in>set (p # ps).
      window_of (str_split (page_text q)) (page_num q) chunk_size c \<and> 0 \<le> word_start c"
    using em1(4,5) em2(4) by auto
  ultimately show ?case by blast
qed

lemma window_loop_diverges:
  assumes "chunk_size - overlap \<le> 0" "start < int (length words)"
          "start + chunk_size < int (length words)"
  shows "window_loop words pnum chunk_size overlap start chunk_idx chunks = None"
proof (cases "window_loop words pnum chunk_size overlap start chunk_idx chunks")
  case None
  then show ?thesis .
next
  case (Some r)
  from window_loop_emits [OF Some] assms show ?thesis by blast
qed

section \<open>Termination of the chunker\<close>

lemma window_loop_terminates:
  assumes "0 < chunk_size - overlap"
  shows "\<exists>em. window_loop words pnum chunk_size overlap start chunk_idx chunks
                 = Some (chunks @ em, chunk_idx + int (length em)) \<and>
              length em \<le> nat (int (length words) - start)"
proof (induction "nat (int (length words) - start)" arbitrary: start chunk_idx chunks
       rule: less_induct)
  case less
  define c where "c = \<lparr>chunk_id = ''p'' @ str_int pnum @ ''_c'' @ str_int chunk_idx,
       chunk_text_str = str_join '' '' (py_slice words start
          (min (start + chunk_size) (int (length words)))),
       page = pnum, chunk_index = chunk_idx, word_start = start,
       word_end = min (start + chunk_size) (int (length words))\<rparr>"
  show ?case
  proof (cases "start < int (length words)")
    case False
    then have "window_loop words pnum chunk_size overlap start chunk_idx chunks
        = Some (chunks @ [], chunk_idx + int (length ([] :: chunk list)))"
      by (subst window_loop.simps) simp
    then show ?thesis by (intro exI [of _ "[]"]) simp
  next
    case inside: True
    show ?thesis
    proof (cases "min (start + chunk_size) (int (length words)) = int (length words)")
      case True
      with inside have "window_loop words pnum chunk_size overlap start chunk_idx chunks
          = Some (chunks @ [c], chunk_idx + int (length [c]))"
        by (subst window_loop.simps) (simp add: Let_def c_def)
      moreover have "length [c] \<le> nat (int (length words) - start)"
        using inside by simp
      ultimately show ?thesis by blast
    next
      case False
      then have short: "start + chunk_size < int (length words)" by linarith
      then have m: "min (start + chunk_size) (int (length words)) = start + chunk_size"
        by simp
      have closer: "nat (int (length words) - (start + (chunk_size - overlap)))
              < nat (int (length words) - start)"
        using assms inside by linarith
      from less [OF this, of "chunk_idx + 1" "chunks @ [c]"] obtain em where
        run: "window_loop words pnum chunk_size overlap (start + (chunk_size - overlap))
                (chunk_idx + 1) (chunks @ [c])
              = Some ((chunks @ [c]) @ em, chunk_idx + 1 + int (length em))" and
        bound: "length em \<le> nat (int (length words) - (start + (chunk_size - overlap)))"
        by blast
      have "window_loop words pnum chunk_size overlap start chunk_idx chunks
              = Some (chunks @ (c # em), chunk_idx + int (length (c # em)))"
        using inside short run by (subst window_loop.simps) (simp add: Let_def c_def m)
      moreover have "length (c # em) \<le> nat (int (length words) - start)"
      proof -
        have "length (c # em) = Suc (length em)" by simp
        with bound closer show ?thesis by linarith
      qed
      ultimately show ?thesis by blast
    qed
  qed
qed

lemma chunk_pages_terminates:
  assumes "0 < chunk_size - overlap"
  shows "\<exists>em. chunk_pages pages chunk_size overlap chunk_idx chunks
                 = Some (chunks @ em, chunk_idx + int (length em)) \<and>
              length em \<le> (\<Sum>p\<leftarrow>pages. length (str_split (page_text p)))"
proof (induction pages arbitrary: chunk_idx chunks)
  case Nil
  show ?case by simp
next
  case (Cons p ps)
  from window_loop_terminates [OF assms, of "str_split (page_text p)" "page_num p" 0
      chunk_idx chunks]
  obtain em1 where
    r1: "window_loop (str_split (page_text p)) (page_num p) chunk_size overlap 0 chunk_idx chunks
           = Some (chunks @ em1, chunk_idx + int (length em1))" and
    b1: "length em1 \<le> length (str_split (page_text p))"
    by auto
  from Cons.IH [of "chunk_idx + int (length em1)" "chunks @ em1"] obtain em2 where
    r2: "chunk_pages ps chunk_size overlap (chunk_idx + int (length em1)) (chunks @ em1)
           = Some ((chunks @ em1) @ em2, chunk_idx + int (length em1) + int (length em2))" and
    b2: "length em2 \<le> (\<Sum>q\<leftarrow>ps. length (str_split (page_text q)))"
    by blast
  have "chunk_pages (p # ps) chunk_size overlap chunk_idx chunks
          = Some (chunks @ (em1 @ em2), chunk_idx + int (length (em1 @ em2)))"
    using r1 r2 by simp
  moreover have "length (em1 @ em2) \<le> (\<Sum>q\<leftarrow>p # ps. length (str_split (page_text q)))"
    using b1 b2 by simp
  ultimately show ?case by blast
qed

section \<open>The chunks of one page within a document\<close>

lemma chunk_pages_append:
  "chunk_pages (ps @ qs) chunk_size overlap chunk_idx chunks =
     (case chunk_pages ps chunk_size overlap chunk_idx chunks of
        None \<Rightarrow> None
      | Some (chunks', chunk_idx') \<Rightarrow> chunk_pages qs chunk_size overlap chunk_idx' chunks')"
  by (induction ps arbitrary: chunk_idx chunks) (auto split: option.splits)

lemma page_windows:
  assumes "0 \<le> overlap" "overlap < chunk_size"
  shows "\<exists>em. window_loop words pnum chunk_size overlap 0 chunk_idx chunks
                 = Some (chunks @ em, chunk_idx + int (length em)) \<and>
              (if words = [] then em = []
               else windows (int (length words)) chunk_size (chunk_size - overlap) 0 em)"
proof (cases "words = []")
  case True
  then have "window_loop words pnum chunk_size overlap 0 chunk_idx chunks
      = Some (chunks @ [], chunk_idx + int (length ([] :: chunk list)))"
    by (subst window_loop.simps) simp
  with True show ?thesis by (intro exI [of _ "[]"]) simp
next
  case False
  then have "0 < int (length words)" by simp
  from window_loop_windows [OF assms this, of pnum chunk_idx chunks] False
  show ?thesis by simp
qed

text \<open>
  In a document \<open>ps @ p # qs\<close>, the chunks of page \<open>p\<close> are the list \<open>em\<close> that
  the loop appends to the chunks \<open>pre\<close> of the pages before it.
\<close>

lemma chunk_text_page:
  assumes "0 \<le> overlap" "overlap < chunk_size"
  shows "\<exists>pre em post.
           chunk_text (ps @ p # qs) chunk_size overlap = Some (pre @ em @ post) \<and>
           chunk_text ps chunk_size overlap = Some pre \<and>
           window_loop (str_split (page_text p)) (page_num p) chunk_size overlap 0
               (int (length pre)) pre = Some (pre @ em, int (length pre) + int (length em)) \<and>
           (if str_split (page_text p) = [] then em = []
            else windows (int (length (str_split (page_text p)))) chunk_size
                   (chunk_size - overlap) 0 em)"
proof -
  from assms have step: "0 < chunk_size - overlap" by simp
  from chunk_pages_terminates [OF step, of ps 0 "[]"] obtain pre where
    pre: "chunk_pages ps chunk_size overlap 0 [] = Some (pre, int (length pre))" by auto
  from page_windows [OF assms, of "str_split (page_text p)" "page_num p" "int (length pre)" pre]
  obtain em where
    em: "window_loop (str_split (page_text p)) (page_num p) chunk_size overlap 0
           (int (length pre)) pre = Some (pre @ em, int (length pre) + int (length em))"
        "if str_split (page_text p) = [] then em = []
         else windows (int (length (str_split (page_text p)))) chunk_size
                (chunk_size - overlap) 0 em"
    by blast
  from chunk_pages_terminates [OF step, of qs "int (length pre) + int (length em)" "pre @ em"]
  obtain post where
    post: "chunk_pages qs chunk_size overlap (int (length pre) + int (length em)) (pre @ em)
             = Some ((pre @ em) @ post, int (length pre) + int (length em) + int (length post))"
    by auto
  have "chunk_pages (ps @ p # qs) chunk_size overlap 0 []
          = Some ((pre @ em) @ post, int (length pre) + int (length em) + int (length post))"
    using pre em(1) post by (simp add: chunk_pages_append)
  then have "chunk_text (ps @ p # qs) chunk_size overlap = Some (pre @ em @ post)"
    by (simp add: chunk_text_def)
  moreover have "chunk_text ps chunk_size overlap = Some pre"
    using pre by (simp add: chunk_text_def)
  ultimately show ?thesis using em by blast
qed


section \<open>Ranges and texts of the emitted chunks\<close>

lemma windows_hd: "windows n chunk_size stride s em \<Longrightarrow> word_start (hd em) = s"
  by (induction n chunk_size stride s em rule: windows.induct) auto

lemma windows_overlap:
  assumes "windows n chunk_size stride s em" "0 < stride" "stride \<le> chunk_size"
          "Suc i < length em"
  shows "{word_start (em ! i)..<word_end (em ! i)} \<inter>
           {word_start (em ! Suc i)..<word_end (em ! Suc i)}
         = {word_start (em ! i) + stride..<word_start (em ! i) + chunk_size}"
proof -
  from assms(4) have i: "i < length em" by simp
  from windows_nth [OF assms(1) i] assms(4) have
    a: "word_start (em ! i) = s + int i * stride"
       "word_end (em ! i) = s + int i * stride + chunk_size"
       "s + int i * stride + chunk_size < n"
    by simp_all
  from windows_nth [OF assms(1) assms(4)] have
    b: "word_start (em ! Suc i) = s + int i * stride + stride"
       "word_end (em ! Suc i) = min (s + int i * stride + stride + chunk_size) n"
    by (simp_all add: algebra_simps)
  have "s + int i * stride + chunk_size \<le> word_end (em ! Suc i)"
    using a(3) assms(2) b(2) by simp
  with a b assms(2) show ?thesis
    by (simp add: Int_atLeastLessThan max_def min_def)
qed



section \<open>Batches and upserts\<close>

declare upsert_loop.simps [simp del]

lemma collection_upsert_all:
  "collection_upsert ef ids documents metadatas coll
     = upsert_all (batch_records ef ids documents metadatas) coll"
proof -
  have "fold (\<lambda>(k, d, m). upsert_one k (ef d, d, m)) zs c
          = fold (\<lambda>(k, r). upsert_one k r) (map (\<lambda>(k, d, m). (k, ef d, d, m)) zs) c"
    for zs :: "(string \<times> string \<times> metadata) list" and c
    by (induction zs arbitrary: c) auto
  then show ?thesis
    by (simp add: collection_upsert_def upsert_all_def batch_records_def)
qed

lemma upsert_all_append:
  "upsert_all (xs @ ys) coll = upsert_all ys (upsert_all xs coll)"
  by (simp add: upsert_all_def)

lemma batch_records_append:
  assumes "length ids1 = length docs1" "length docs1 = length metas1"
  shows "batch_records ef (ids1 @ ids2) (docs1 @ docs2) (metas1 @ metas2)
           = batch_records ef ids1 docs1 metas1 @ batch_records ef ids2 docs2 metas2"
  using assms by (simp add: batch_records_def)

lemma collection_upsert_split:
  assumes "length ids = length docs" "length docs = length metas"
  shows "collection_upsert ef (drop k ids) (drop k docs) (drop k metas)
           (collection_upsert ef (take k ids) (take k docs) (take k metas) coll)
         = collection_upsert ef ids docs metas coll"
proof -
  have "batch_records ef (take k ids @ drop k ids) (take k docs @ drop k docs)
          (take k metas @ drop k metas)
        = batch_records ef (take k ids) (take k docs) (take k metas)
          @ batch_records ef (drop k ids) (drop k docs) (drop k metas)"
    using assms by (intro batch_records_append) simp_all
  then show ?thesis
    by (simp add: collection_upsert_all upsert_all_append [symmetric])
qed

lemma upsert_loop_drop:
  assumes "length ids = n" "length docs = n" "length metas = n"
  shows "upsert_loop ef i n ids docs metas coll
           = collection_upsert ef (drop i ids) (drop i docs) (drop i metas) coll"
  using assms
proof (induction ef i n ids docs metas coll rule: upsert_loop.induct)
  case (1 ef i n ids docs metas coll)
  show ?case
  proof (cases "i < n")
    case False
    with "1.prems" show ?thesis
      by (subst upsert_loop.simps) (simp add: collection_upsert_def)
  next
    case True
    let ?c = "collection_upsert ef (take batch (drop i ids)) (take batch (drop i docs))
                (take batch (drop i metas)) coll"
    have "upsert_loop ef i n ids docs metas coll
            = upsert_loop ef (i + batch) n ids docs metas ?c"
      using True by (subst upsert_loop.simps) (simp add: py_slice_nat del: of_nat_add)
    also have "\<dots> = collection_upsert ef (drop (i + batch) ids) (drop (i + batch) docs)
                        (drop (i + batch) metas) ?c"
      using "1.IH" [OF True] "1.prems" by (simp add: py_slice_nat del: of_nat_add)
    also have "\<dots> = collection_upsert ef (drop batch (drop i ids)) (drop batch (drop i docs))
                        (drop batch (drop i metas)) ?c"
      by (simp add: add.commute)
    also have "\<dots> = collection_upsert ef (drop i ids) (drop i docs) (drop i metas) coll"
      using "1.prems" by (intro collection_upsert_split) simp_all
    finally show ?thesis .
  qed
qed

lemma upsert_one_keys: "fst ` set (upsert_one k r coll) = insert k (fst ` set coll)"
proof (induction coll)
  case Nil
  show ?case by simp
next
  case (Cons kr coll)
  obtain k' r' where kr: "kr = (k', r')" by (cases kr)
  show ?case
  proof (cases "k' = k")
    case True
    then show ?thesis by (simp add: kr)
  next
    case False
    with Cons.IH show ?thesis by (simp add: kr insert_commute)
  qed
qed

lemma upsert_all_keys: "fst ` set (upsert_all kvs coll) = fst ` set kvs \<union> fst ` set coll"
proof (induction kvs arbitrary: coll)
  case Nil
  show ?case by (simp add: upsert_all_def)
next
  case (Cons kv kvs)
  obtain k r where kv: "kv = (k, r)" by (cases kv)
  have "upsert_all (kv # kvs) coll = upsert_all kvs (upsert_one k r coll)"
    by (simp add: upsert_all_def kv)
  with Cons.IH [of "upsert_one k r coll"] show ?case
    by (auto simp: kv upsert_one_keys)
qed

lemma upsert_one_absorb: "upsert_one k r (upsert_one k r' coll) = upsert_one k r coll"
  by (induction coll) auto

lemma upsert_one_commute:
  "k \<noteq> k' \<Longrightarrow> k' \<in> fst ` set coll \<Longrightarrow>
     upsert_one k r (upsert_one k' r' coll) = upsert_one k' r' (upsert_one k r coll)"
proof (induction coll)
  case Nil
  then show ?case by simp
next
  case (Cons hr coll)
  obtain h s where hr: "hr = (h, s)" by (cases hr)
  show ?case
  proof (cases "h = k \<or> h = k'")
    case True
    with Cons.prems(1) show ?thesis by (auto simp: hr)
  next
    case False
    with Cons.prems have "k' \<in> fst ` set coll" by (auto simp: hr)
    from Cons.IH [OF Cons.prems(1) this] False show ?thesis by (simp add: hr)
  qed
qed

lemma upsert_one_distinct:
  "distinct (map fst coll) \<Longrightarrow> distinct (map fst (upsert_one k r coll))"
proof (induction coll)
  case Nil
  show ?case by simp
next
  case (Cons kr coll)
  obtain k' r' where kr: "kr = (k', r')" by (cases kr)
  from Cons show ?case
    using upsert_one_keys [of k r coll] by (auto simp: kr)
qed

lemma upsert_all_distinct:
  "distinct (map fst coll) \<Longrightarrow> distinct (map fst (upsert_all kvs coll))"
proof (induction kvs arbitrary: coll)
  case Nil
  then show ?case by (simp add: upsert_all_def)
next
  case (Cons kv kvs)
  obtain k r where kv: "kv = (k, r)" by (cases kv)
  have "upsert_all (kv # kvs) coll = upsert_all kvs (upsert_one k r coll)"
    by (simp add: upsert_all_def kv)
  with Cons.IH [OF upsert_one_distinct [OF Cons.prems, of k r]] show ?case by simp
qed

lemma upsert_all_after_one:
  "fst ` set kvs \<subseteq> fst ` set coll \<Longrightarrow>
     upsert_one k r (upsert_all kvs (upsert_one k r coll)) = upsert_one k r (upsert_all kvs coll)"
proof (induction kvs arbitrary: coll)
  case Nil
  show ?case by (simp add: upsert_all_def upsert_one_absorb)
next
  case (Cons kv kvs)
  obtain k' r' where kv: "kv = (k', r')" by (cases kv)
  have unfold: "upsert_all (kv # kvs) c = upsert_all kvs (upsert_one k' r' c)" for c
    by (simp add: upsert_all_def kv)
  from Cons.prems have present: "k' \<in> fst ` set coll" and
    rest: "fst ` set kvs \<subseteq> fst ` set (upsert_one k' r' coll)"
    by (auto simp: kv upsert_one_keys)
  show ?case
  proof (cases "k' = k")
    case True
    then show ?thesis by (simp add: unfold upsert_one_absorb)
  next
    case False
    then have "upsert_one k' r' (upsert_one k r coll) = upsert_one k r (upsert_one k' r' coll)"
      using upsert_one_commute [of k k' coll r r'] present by simp
    with Cons.IH [OF rest] show ?thesis by (simp add: unfold)
  qed
qed

lemma upsert_all_idem: "upsert_all kvs (upsert_all kvs coll) = upsert_all kvs coll"
proof (induction kvs arbitrary: coll rule: rev_induct)
  case Nil
  show ?case by (simp add: upsert_all_def)
next
  case (snoc kv kvs)
  obtain k r where kv: "kv = (k, r)" by (cases kv)
  have unfold: "upsert_all (kvs @ [kv]) c = upsert_one k r (upsert_all kvs c)" for c
    by (simp add: upsert_all_def kv)
  have keys: "fst ` set kvs \<subseteq> fst ` set (upsert_all kvs coll)"
    by (simp add: upsert_all_keys)
  have "upsert_all (kvs @ [kv]) (upsert_all (kvs @ [kv]) coll)
          = upsert_one k r (upsert_all kvs (upsert_one k r (upsert_all kvs coll)))"
    by (simp add: unfold)
  also have "\<dots> = upsert_one k r (upsert_all kvs (upsert_all kvs coll))"
    using upsert_all_after_one [OF keys] .
  also have "\<dots> = upsert_all (kvs @ [kv]) coll"
    by (simp add: snoc.IH unfold)
  finally show ?case .
qed

lemma embed_and_store_eq:
  "embed_and_store emb chunks db_dir collection_name model_name source_name db =
     (db((db_dir, collection_name) :=
         upsert_all
           (batch_records (emb model_name) (map chunk_id chunks) (map chunk_text_str chunks)
              (map (\<lambda>c. \<lparr>md_page = page c, md_chunk_index = chunk_index c,
                            md_word_start = word_start c, md_word_end = word_end c,
                            md_source = source_name\<rparr>) chunks))
           (db (db_dir, collection_name))),
      \<lparr>st_source = source_name, st_collection = collection_name, st_db_dir = db_dir,
        st_total_chunks = length chunks, st_model = model_name\<rparr>)"
  by (simp add: embed_and_store_def Let_def upsert_loop_drop collection_upsert_all)

lemma embed_and_store_idem:
  assumes "embed_and_store emb chunks db_dir collection_name model_name source_name db
             = (db1, stats)"
  shows "embed_and_store emb chunks db_dir collection_name model_name source_name db1
             = (db1, stats)"
  using assms by (auto simp: embed_and_store_eq upsert_all_idem)

lemma embed_and_store_distinct:
  assumes "embed_and_store emb chunks db_dir collection_name model_name source_name db
             = (db1, stats)"
          "distinct (map fst (db (db_dir, collection_name)))"
  shows "distinct (map fst (db1 (db_dir, collection_name)))"
  using assms by (auto simp: embed_and_store_eq upsert_all_distinct)

section \<open>Extraction\<close>

lemma sample_pages:
  "extract_text sample_reader ''doc.pdf''
     = Inr [\<lparr>page_num = 1, page_text = ''a b c d e''\<rparr>, \<lparr>page_num = 3, page_text = ''x y''\<rparr>]"
  by code_simp


section \<open>The claims\<close>

text \<open>
  C1. The claim: a configuration with \<open>overlap \<ge> chunk_size\<close> is rejected before
  any processing. \<open>main\<close> checks the path and nothing else. With \<open>chunk_size = 2\<close>
  and \<open>overlap = 2\<close> on \<open>doc.pdf\<close>, whose first page has five words, the text is
  extracted, the loop is entered with a stride of \<open>0\<close> and the run never ends. With
  \<open>chunk_size = 5\<close> and \<open>overlap = 7\<close> every page fits in one window, and the run
  ends normally with two chunks written.
\<close>

theorem main_accepts_bad_overlap:
  "main sample_env (sample_args ''doc.pdf'' 2 2) empty_db = None \<and>
   map_option fst (main sample_env (sample_args ''doc.pdf'' 5 7) empty_db)
     = Some (Inr \<lparr>st_source = ''doc.pdf'', st_collection = ''docs'',
                   st_db_dir = ''./data/vector_db'', st_total_chunks = 2,
                   st_model = ''all-MiniLM-L6-v2''\<rparr>)"
proof -
  have words: "str_split ''a b c d e'' = [''a'', ''b'', ''c'', ''d'', ''e'']" by code_simp
  have "window_loop (str_split ''a b c d e'') 1 2 2 0 0 [] = None"
    by (rule window_loop_diverges) (simp_all add: words)
  then have "chunk_text [\<lparr>page_num = 1, page_text = ''a b c d e''\<rparr>,
                          \<lparr>page_num = 3, page_text = ''x y''\<rparr>] 2 2 = None"
    by (simp add: chunk_text_def)
  with sample_pages have stuck: "main sample_env (sample_args ''doc.pdf'' 2 2) empty_db = None"
    by (simp add: main_def sample_env_def sample_args_def sample_exists_def)
  have "map_option length (chunk_text [\<lparr>page_num = 1, page_text = ''a b c d e''\<rparr>,
                          \<lparr>page_num = 3, page_text = ''x y''\<rparr>] 5 7) = Some 2"
    by code_simp
  then obtain chunks where
    "chunk_text [\<lparr>page_num = 1, page_text = ''a b c d e''\<rparr>,
                 \<lparr>page_num = 3, page_text = ''x y''\<rparr>] 5 7 = Some chunks" "length chunks = 2"
    by auto
  with sample_pages have "map_option fst (main sample_env (sample_args ''doc.pdf'' 5 7) empty_db)
     = Some (Inr \<lparr>st_source = ''doc.pdf'', st_collection = ''docs'',
                   st_db_dir = ''./data/vector_db'', st_total_chunks = 2,
                   st_model = ''all-MiniLM-L6-v2''\<rparr>)"
    by (simp add: main_def sample_env_def sample_args_def sample_exists_def embed_and_store_eq)
  with stuck show ?thesis by simp
qed

text \<open>
  C2. Let a page split into \<open>n > 0\<close> words and let \<open>0 < overlap < chunk_size\<close>.
  Wherever the page stands in a document \<open>ps @ p # qs\<close>, \<open>chunk_text\<close> returns, and
  the chunks \<open>em\<close> that it emits for the page are not empty, start at word \<open>0\<close>, end
  at word \<open>n\<close>, each range starts after the one before it and no later than that one
  ends (no gap), and every word position of \<open>[0, n)\<close> lies in the range of some chunk.
\<close>

theorem page_ranges_cover:
  assumes "0 < overlap" "overlap < chunk_size" "0 < length (str_split (page_text p))"
  shows "\<exists>pre em post.
           chunk_text (ps @ p # qs) chunk_size overlap = Some (pre @ em @ post) \<and>
           chunk_text ps chunk_size overlap = Some pre \<and>
           window_loop (str_split (page_text p)) (page_num p) chunk_size overlap 0
               (int (length pre)) pre = Some (pre @ em, int (length pre) + int (length em)) \<and>
           em \<noteq> [] \<and>
           word_start (hd em) = 0 \<and>
           word_end (last em) = int (length (str_split (page_text p))) \<and>
           (\<forall>i. Suc i < length em \<longrightarrow>
              word_start (em ! i) < word_start (em ! Suc i) \<and>
              word_start (em ! Suc i) \<le> word_end (em ! i)) \<and>
           (\<forall>k. 0 \<le> k \<and> k < int (length (str_split (page_text p))) \<longrightarrow>
              (\<exists>c\<in>set em. word_start c \<le> k \<and> k < word_end c))"
proof -
  let ?n = "int (length (str_split (page_text p)))"
  from assms(1) have ov: "0 \<le> overlap" by simp
  from assms(3) have ne: "str_split (page_text p) \<noteq> []" by auto
  from chunk_text_page [OF ov assms(2), of ps p qs] ne obtain pre em post where
    run: "chunk_text (ps @ p # qs) chunk_size overlap = Some (pre @ em @ post)"
         "chunk_text ps chunk_size overlap = Some pre"
         "window_loop (str_split (page_text p)) (page_num p) chunk_size overlap 0
               (int (length pre)) pre = Some (pre @ em, int (length pre) + int (length em))" and
    win: "windows ?n chunk_size (chunk_size - overlap) 0 em"
    by auto
  have stride: "0 < chunk_size - overlap" "chunk_size - overlap \<le> chunk_size"
    using assms by simp_all
  have adj: "word_start (em ! i) < word_start (em ! Suc i) \<and>
             word_start (em ! Suc i) \<le> word_end (em ! i)" if "Suc i < length em" for i
  proof -
    from that have i: "i < length em" by simp
    from windows_nth [OF win i] windows_nth [OF win that] that stride show ?thesis
      by (simp add: algebra_simps)
  qed
  have cover: "\<exists>c\<in>set em. word_start c \<le> k \<and> k < word_end c" if "0 \<le> k \<and> k < ?n" for k
    using windows_cover [OF win stride(2), of k] that by simp
  from run windows_nonempty [OF win] windows_hd [OF win] windows_last [OF win] adj cover
  show ?thesis by blast
qed

theorem page_ranges_cover_witness:
  "(0::int) < 1 \<and> (1::int) < 3 \<and> 0 < length (str_split ''a b c d e f g'') \<and>
   (\<exists>pre em post.
      chunk_text ([] @ \<lparr>page_num = 1, page_text = ''a b c d e f g''\<rparr> # []) 3 1
        = Some (pre @ em @ post) \<and>
      chunk_text [] 3 1 = Some pre \<and>
      window_loop (str_split ''a b c d e f g'') 1 3 1 0 (int (length pre)) pre
        = Some (pre @ em, int (length pre) + int (length em)) \<and>
      em \<noteq> [] \<and> word_start (hd em) = 0 \<and> word_end (last em) = 7 \<and>
      (\<forall>i. Suc i < length em \<longrightarrow>
         word_start (em ! i) < word_start (em ! Suc i) \<and>
         word_start (em ! Suc i) \<le> word_end (em ! i)) \<and>
      (\<forall>k. 0 \<le> k \<and> k < 7 \<longrightarrow> (\<exists>c\<in>set em. word_start c \<le> k \<and> k < word_end c)))"
proof -
  have n: "length (str_split ''a b c d e f g'') = 7" by code_simp
  from page_ranges_cover [of 1 3 "\<lparr>page_num = 1, page_text = ''a b c d e f g''\<rparr>" "[]" "[]"] n
  show ?thesis by simp
qed

text \<open>
  C3. If an ingestion run ends normally and leaves the database \<open>db1\<close>, the same
  run on \<open>db1\<close> (same document, same arguments) ends normally with the same
  statistics and leaves \<open>db1\<close> as it is: the same records under the same ids, in
  the same number. No id is stored twice in the collection if none was before.
\<close>

theorem reingest_idempotent:
  assumes "main env a db = Some (Inr stats, db1)"
  shows "main env a db1 = Some (Inr stats, db1) \<and>
         (distinct (map fst (db (arg_db_dir a, arg_collection a))) \<longrightarrow>
          distinct (map fst (db1 (arg_db_dir a, arg_collection a))))"
proof -
  from assms obtain pages chunks where
    ex: "path_exists env (arg_pdf a)" and
    pages: "extract_text (pdf_reader env) (arg_pdf a) = Inr pages" and
    chunks: "chunk_text pages (arg_chunk_size a) (arg_overlap a) = Some chunks" and
    store: "embed_and_store (embedding_function env) chunks (arg_db_dir a) (arg_collection a)
              (arg_model a) (path_name env (arg_pdf a)) db = (db1, stats)"
    by (auto simp: main_def Let_def split: if_splits sum.splits option.splits prod.splits)
  from embed_and_store_idem [OF store] ex pages chunks
  have "main env a db1 = Some (Inr stats, db1)"
    by (simp add: main_def)
  with embed_and_store_distinct [OF store] show ?thesis by simp
qed

theorem reingest_idempotent_witness:
  "\<exists>stats db1.
     main sample_env (sample_args ''doc.pdf'' 3 1) empty_db = Some (Inr stats, db1) \<and>
     main sample_env (sample_args ''doc.pdf'' 3 1) db1 = Some (Inr stats, db1) \<and>
     distinct (map fst (db1 (''./data/vector_db'', ''docs''))) \<and>
     st_total_chunks stats = 3"
proof -
  have chunks: "chunk_text [\<lparr>page_num = 1, page_text = ''a b c d e''\<rparr>,
                             \<lparr>page_num = 3, page_text = ''x y''\<rparr>] 3 1
     = Some [\<lparr>chunk_id = ''p1_c0'', chunk_text_str = ''a b c'', page = 1, chunk_index = 0,
               word_start = 0, word_end = 3\<rparr>,
             \<lparr>chunk_id = ''p1_c1'', chunk_text_str = ''c d e'', page = 1, chunk_index = 1,
               word_start = 2, word_end = 5\<rparr>,
             \<lparr>chunk_id = ''p3_c2'', chunk_text_str = ''x y'', page = 3, chunk_index = 2,
               word_start = 0, word_end = 2\<rparr>]"
    by code_simp
  obtain db1 stats where store:
    "embed_and_store sample_embedding
       [\<lparr>chunk_id = ''p1_c0'', chunk_text_str = ''a b c'', page = 1, chunk_index = 0,
               word_start = 0, word_end = 3\<rparr>,
             \<lparr>chunk_id = ''p1_c1'', chunk_text_str = ''c d e'', page = 1, chunk_index = 1,
               word_start = 2, word_end = 5\<rparr>,
             \<lparr>chunk_id = ''p3_c2'', chunk_text_str = ''x y'', page = 3, chunk_index = 2,
               word_start = 0, word_end = 2\<rparr>]
       ''./data/vector_db'' ''docs'' ''all-MiniLM-L6-v2'' ''doc.pdf'' empty_db = (db1, stats)"
    by (metis surj_pair)
  then have total: "st_total_chunks stats = 3"
    by (auto simp: embed_and_store_eq)
  have first: "main sample_env (sample_args ''doc.pdf'' 3 1) empty_db = Some (Inr stats, db1)"
    using sample_pages chunks store
    by (simp add: main_def sample_env_def sample_args_def sample_exists_def)
  from reingest_idempotent [OF first] first total show ?thesis
    by (auto simp: sample_args_def empty_db_def)
qed

text \<open>
  C4. For every chunk list, and every database, \<open>embed_and_store\<close> with its
  batches of 128 returns what the writer with one single batch returns: the same
  database (records, their order and their number) and the same statistics.
\<close>

theorem batched_upsert_is_one_batch:
  "embed_and_store emb chunks db_dir collection_name model_name source_name db
     = embed_and_store_one_batch emb chunks db_dir collection_name model_name source_name db"
  by (simp add: embed_and_store_def embed_and_store_one_batch_def Let_def upsert_loop_drop)

text \<open>
  C5. Whenever \<open>chunk_text\<close> returns, whatever the pages and the chunking
  parameters, the chunks carry the indices \<open>0, 1, 2, ...\<close> in order over the whole
  document: the counter goes up by one per emitted chunk and is never reset between
  pages, a page without chunks leaving it as it is. Every \<open>chunk_id\<close> is
  \<open>p<page>_c<chunk_index>\<close> of the chunk's own fields.
\<close>

theorem chunk_index_global:
  assumes "chunk_text pages chunk_size overlap = Some chunks"
  shows "map chunk_index chunks = map int [0..<length chunks] \<and>
         (\<forall>c\<in>set chunks.
            chunk_id c = ''p'' @ str_int (page c) @ ''_c'' @ str_int (chunk_index c))"
proof -
  from assms obtain r where
    r: "chunk_pages pages chunk_size overlap 0 [] = Some r" and "chunks = fst r"
    by (auto simp: chunk_text_def)
  from chunk_pages_emits [OF r] \<open>chunks = fst r\<close> have
    idx: "indexed_from 0 chunks" and
    ok: "\<forall>c\<in>set chunks. \<exists>p\<in>set pages.
           window_of (str_split (page_text p)) (page_num p) chunk_size c \<and> 0 \<le> word_start c"
    by auto
  from indexed_from_map [OF idx] have "map chunk_index chunks = map int [0..<length chunks]"
    by simp
  moreover from ok have "\<forall>c\<in>set chunks.
      chunk_id c = ''p'' @ str_int (page c) @ ''_c'' @ str_int (chunk_index c)"
    by (auto simp: window_of_def)
  ultimately show ?thesis by simp
qed

theorem chunk_index_global_witness:
  "chunk_text [\<lparr>page_num = 1, page_text = ''a b c d e''\<rparr>,
               \<lparr>page_num = 2, page_text = ''  ''\<rparr>,
               \<lparr>page_num = 3, page_text = ''x y''\<rparr>] 3 1
     = Some [\<lparr>chunk_id = ''p1_c0'', chunk_text_str = ''a b c'', page = 1, chunk_index = 0,
               word_start = 0, word_end = 3\<rparr>,
             \<lparr>chunk_id = ''p1_c1'', chunk_text_str = ''c d e'', page = 1, chunk_index = 1,
               word_start = 2, word_end = 5\<rparr>,
             \<lparr>chunk_id = ''p3_c2'', chunk_text_str = ''x y'', page = 3, chunk_index = 2,
               word_start = 0, word_end = 2\<rparr>] \<and>
   map chunk_index
       [\<lparr>chunk_id = ''p1_c0'', chunk_text_str = ''a b c'', page = 1, chunk_index = 0,
               word_start = 0, word_end = 3\<rparr>,
             \<lparr>chunk_id = ''p1_c1'', chunk_text_str = ''c d e'', page = 1, chunk_index = 1,
               word_start = 2, word_end = 5\<rparr>,
             \<lparr>chunk_id = ''p3_c2'', chunk_text_str = ''x y'', page = 3, chunk_index = 2,
               word_start = 0, word_end = 2\<rparr>] = [0, 1, 2]"
proof -
  have run: "chunk_text [\<lparr>page_num = 1, page_text = ''a b c d e''\<rparr>,
               \<lparr>page_num = 2, page_text = ''  ''\<rparr>,
               \<lparr>page_num = 3, page_text = ''x y''\<rparr>] 3 1
     = Some [\<lparr>chunk_id = ''p1_c0'', chunk_text_str = ''a b c'', page = 1, chunk_index = 0,
               word_start = 0, word_end = 3\<rparr>,
             \<lparr>chunk_id = ''p1_c1'', chunk_text_str = ''c d e'', page = 1, chunk_index = 1,
               word_start = 2, word_end = 5\<rparr>,
             \<lparr>chunk_id = ''p3_c2'', chunk_text_str = ''x y'', page = 3, chunk_index = 2,
               word_start = 0, word_end = 2\<rparr>]"
    by code_simp
  from chunk_index_global [OF run] run show ?thesis by simp
qed

text \<open>
  C6, as stated, fails: the ranges of two consecutive chunks of a page share
  \<open>overlap\<close> words, not \<open>chunk_size - overlap\<close>. On a page of seven words with
  \<open>chunk_size = 3\<close> and \<open>overlap = 1\<close> the ranges are \<open>[0, 3)\<close>, \<open>[2, 5)\<close> and
  \<open>[4, 7)\<close>; the first two, neither of them the final one, share one word, and
  \<open>chunk_size - overlap\<close> is two.
\<close>

theorem page_overlap_counterexample:
  "map word_start (the (chunk_text [\<lparr>page_num = 1, page_text = ''a b c d e f g''\<rparr>] 3 1)) = [0, 2, 4] \<and>
   map word_end (the (chunk_text [\<lparr>page_num = 1, page_text = ''a b c d e f g''\<rparr>] 3 1)) = [3, 5, 7] \<and>
   card ({word_start (the (chunk_text [\<lparr>page_num = 1, page_text = ''a b c d e f g''\<rparr>] 3 1) ! 0)..<
          word_end (the (chunk_text [\<lparr>page_num = 1, page_text = ''a b c d e f g''\<rparr>] 3 1) ! 0)} \<inter>
         {word_start (the (chunk_text [\<lparr>page_num = 1, page_text = ''a b c d e f g''\<rparr>] 3 1) ! 1)..<
          word_end (the (chunk_text [\<lparr>page_num = 1, page_text = ''a b c d e f g''\<rparr>] 3 1) ! 1)}) \<noteq> nat (3 - 1)"
proof -
  have "chunk_text [\<lparr>page_num = 1, page_text = ''a b c d e f g''\<rparr>] 3 1
     = Some [\<lparr>chunk_id = ''p1_c0'', chunk_text_str = ''a b c'', page = 1, chunk_index = 0,
               word_start = 0, word_end = 3\<rparr>,
             \<lparr>chunk_id = ''p1_c1'', chunk_text_str = ''c d e'', page = 1, chunk_index = 1,
               word_start = 2, word_end = 5\<rparr>,
             \<lparr>chunk_id = ''p1_c2'', chunk_text_str = ''e f g'', page = 1, chunk_index = 2,
               word_start = 4, word_end = 7\<rparr>]"
    by code_simp
  moreover have "card ({0::int..<3} \<inter> {2..<5}) = 1"
    by (simp add: Int_atLeastLessThan)
  ultimately show ?thesis by simp
qed

text \<open>
  C6, amended. With \<open>0 < overlap < chunk_size\<close>, the ranges of any two consecutive
  chunks that \<open>chunk_text\<close> emits for a page intersect in exactly \<open>overlap\<close> word
  positions. This holds for the final range as well: the exception that the claim
  allows for it is never needed.
\<close>

theorem page_overlap:
  assumes "0 < overlap" "overlap < chunk_size"
  shows "\<exists>pre em post.
           chunk_text (ps @ p # qs) chunk_size overlap = Some (pre @ em @ post) \<and>
           chunk_text ps chunk_size overlap = Some pre \<and>
           window_loop (str_split (page_text p)) (page_num p) chunk_size overlap 0
               (int (length pre)) pre = Some (pre @ em, int (length pre) + int (length em)) \<and>
           (\<forall>i. Suc i < length em \<longrightarrow>
              card ({word_start (em ! i)..<word_end (em ! i)} \<inter>
                    {word_start (em ! Suc i)..<word_end (em ! Suc i)}) = nat overlap)"
proof -
  from assms(1) have ov: "0 \<le> overlap" by simp
  from chunk_text_page [OF ov assms(2), of ps p qs] obtain pre em post where
    run: "chunk_text (ps @ p # qs) chunk_size overlap = Some (pre @ em @ post)"
         "chunk_text ps chunk_size overlap = Some pre"
         "window_loop (str_split (page_text p)) (page_num p) chunk_size overlap 0
               (int (length pre)) pre = Some (pre @ em, int (length pre) + int (length em))" and
    win: "if str_split (page_text p) = [] then em = []
          else windows (int (length (str_split (page_text p)))) chunk_size
                 (chunk_size - overlap) 0 em"
    by blast
  have "card ({word_start (em ! i)..<word_end (em ! i)} \<inter>
              {word_start (em ! Suc i)..<word_end (em ! Suc i)}) = nat overlap"
    if "Suc i < length em" for i
  proof -
    from that win have w: "windows (int (length (str_split (page_text p)))) chunk_size
                 (chunk_size - overlap) 0 em"
      by (auto split: if_splits)
    have "0 < chunk_size - overlap" "chunk_size - overlap \<le> chunk_size"
      using assms by simp_all
    from windows_overlap [OF w this that] show ?thesis by simp
  qed
  with run show ?thesis by blast
qed

theorem page_overlap_witness:
  "(0::int) < 1 \<and> (1::int) < 3 \<and>
   (\<exists>pre em post.
      chunk_text ([] @ \<lparr>page_num = 1, page_text = ''a b c d e f g''\<rparr> # []) 3 1 = Some (pre @ em @ post) \<and>
      chunk_text [] 3 1 = Some pre \<and>
      window_loop (str_split ''a b c d e f g'') 1 3 1 0 (int (length pre)) pre
        = Some (pre @ em, int (length pre) + int (length em)) \<and>
      (\<forall>i. Suc i < length em \<longrightarrow>
         card ({word_start (em ! i)..<word_end (em ! i)} \<inter>
               {word_start (em ! Suc i)..<word_end (em ! Suc i)}) = nat 1))"
  using page_overlap [of 1 3 "[]" "\<lparr>page_num = 1, page_text = ''a b c d e f g''\<rparr>" "[]"]
  by simp

text \<open>
  C7. With \<open>0 < overlap < chunk_size\<close>, any two consecutive chunks that
  \<open>chunk_text\<close> emits for a page satisfy
  \<open>chunk[i+1].word_start = chunk[i].word_start + (chunk_size - overlap)\<close>. This holds
  for the last chunk of the page as well: the exception that the claim allows for it
  is never needed.
\<close>

theorem page_stride:
  assumes "0 < overlap" "overlap < chunk_size"
  shows "\<exists>pre em post.
           chunk_text (ps @ p # qs) chunk_size overlap = Some (pre @ em @ post) \<and>
           chunk_text ps chunk_size overlap = Some pre \<and>
           window_loop (str_split (page_text p)) (page_num p) chunk_size overlap 0
               (int (length pre)) pre = Some (pre @ em, int (length pre) + int (length em)) \<and>
           (\<forall>i. Suc i < length em \<longrightarrow>
              word_start (em ! Suc i) = word_start (em ! i) + (chunk_size - overlap))"
proof -
  from assms(1) have ov: "0 \<le> overlap" by simp
  from chunk_text_page [OF ov assms(2), of ps p qs] obtain pre em post where
    run: "chunk_text (ps @ p # qs) chunk_size overlap = Some (pre @ em @ post)"
         "chunk_text ps chunk_size overlap = Some pre"
         "window_loop (str_split (page_text p)) (page_num p) chunk_size overlap 0
               (int (length pre)) pre = Some (pre @ em, int (length pre) + int (length em))" and
    win: "if str_split (page_text p) = [] then em = []
          else windows (int (length (str_split (page_text p)))) chunk_size
                 (chunk_size - overlap) 0 em"
    by blast
  have "word_start (em ! Suc i) = word_start (em ! i) + (chunk_size - overlap)"
    if "Suc i < length em" for i
  proof -
    from that win have w: "windows (int (length (str_split (page_text p)))) chunk_size
                 (chunk_size - overlap) 0 em"
      by (auto split: if_splits)
    from that have i: "i < length em" by simp
    from windows_nth [OF w i] windows_nth [OF w that] show ?thesis
      by (simp add: algebra_simps)
  qed
  with run show ?thesis by blast
qed

theorem page_stride_witness:
  "(0::int) < 1 \<and> (1::int) < 3 \<and>
   map word_start (the (chunk_text [\<lparr>page_num = 1, page_text = ''a b c d e f g''\<rparr>] 3 1)) = [0, 2, 4] \<and>
   (\<exists>pre em post.
      chunk_text ([] @ \<lparr>page_num = 1, page_text = ''a b c d e f g''\<rparr> # []) 3 1 = Some (pre @ em @ post) \<and>
      chunk_text [] 3 1 = Some pre \<and>
      window_loop (str_split ''a b c d e f g'') 1 3 1 0 (int (length pre)) pre
        = Some (pre @ em, int (length pre) + int (length em)) \<and>
      (\<forall>i. Suc i < length em \<longrightarrow> word_start (em ! Suc i) = word_start (em ! i) + (3 - 1)))"
proof -
  have "map word_start (the (chunk_text [\<lparr>page_num = 1, page_text = ''a b c d e f g''\<rparr>] 3 1)) = [0, 2, 4]"
    by code_simp
  with page_stride [of 1 3 "[]" "\<lparr>page_num = 1, page_text = ''a b c d e f g''\<rparr>" "[]"]
  show ?thesis by simp
qed




text \<open>
  C9. For every page list and every chunk size and overlap with
  \<open>chunk_size - overlap > 0\<close>, \<open>chunk_text\<close> terminates: it returns a chunk list. The
  cursor of a page moves forward by \<open>chunk_size - overlap\<close> on every iteration that
  does not end the page, so a page emits no more chunks than it has words.
\<close>

theorem chunk_text_terminates:
  assumes "0 < chunk_size - overlap"
  shows "\<exists>chunks. chunk_text pages chunk_size overlap = Some chunks \<and>
           length chunks \<le> (\<Sum>p\<leftarrow>pages. length (str_split (page_text p)))"
  using chunk_pages_terminates [OF assms, of pages 0 "[]"]
  by (auto simp: chunk_text_def)

theorem chunk_text_terminates_witness:
  "(0::int) < 3 - 1 \<and>
   (\<exists>chunks. chunk_text [\<lparr>page_num = 1, page_text = ''a b c d e''\<rparr>] 3 1 = Some chunks \<and>
      length chunks \<le> 5)"
  using chunk_text_terminates [of 3 1 "[\<lparr>page_num = 1, page_text = ''a b c d e''\<rparr>]"]
  by (simp add: str_split_def isspace_def eval_nat_numeral)




end
